theory Spec2Isabelle
  imports Main "HOL-Library.Sublist"
begin

section \<open>Strings and the built-in operations the pump calls\<close>

text \<open>
  A JavaScript string is a finite sequence of code units; it is modelled as a
  \<^typ>\<open>string\<close>, one \<^typ>\<open>char\<close> per code unit.  Nothing below looks inside a
  code unit, apart from comparing two of them.

  \<^verbatim>\<open>String.prototype.split(separator)\<close> with a string separator and no limit:
  \<^item> the empty separator yields the list of the code units of the string (none for
    the empty string);
  \<^item> otherwise the string is scanned from the left; at the leftmost occurrence of the
    separator at or after the current position the part before it is closed and the
    scan goes on behind the occurrence; what is left at the end is the last part.
\<close>

fun prependFirst :: "char \<Rightarrow> string list \<Rightarrow> string list" where
  "prependFirst c [] = [[c]]"
| "prependFirst c (p # ps) = (c # p) # ps"

fun splitOn :: "string \<Rightarrow> string \<Rightarrow> string list" where
  "splitOn sep [] = [[]]"
| "splitOn sep (c # cs) =
     (if prefix sep (c # cs) then [] # splitOn sep (drop (length sep - 1) cs)
      else prependFirst c (splitOn sep cs))"

definition split :: "string \<Rightarrow> string \<Rightarrow> string list" where
  "split s sep = (if sep = [] then map (\<lambda>c. [c]) s else splitOn sep s)"

text \<open>\<^verbatim>\<open>Array.prototype.join(separator)\<close>, which the properties of the transformer use.\<close>

fun join :: "string \<Rightarrow> string list \<Rightarrow> string" where
  "join sep [] = []"
| "join sep [p] = p"
| "join sep (p # q # ps) = p @ sep @ join sep (q # ps)"

text \<open>
  The number of occurrences of a separator in a string, counted from the left without
  overlap; it is zero exactly when the separator does not occur.
\<close>

fun occurrences :: "string \<Rightarrow> string \<Rightarrow> nat" where
  "occurrences sep [] = 0"
| "occurrences sep (c # cs) =
     (if prefix sep (c # cs) then Suc (occurrences sep (drop (length sep - 1) cs))
      else occurrences sep cs)"

section \<open>The splitting iterator\<close>

record StringCarryover =
  carryover :: string

record StatefulPumpResult =
  pumpDidWork :: bool
  state :: StringCarryover

text \<open>
  The object: the upstream iterator is the list of the fragments it has yet to yield
  (\<^verbatim>\<open>upstream.next()\<close> reports done on the empty list, again and again, and otherwise
  hands out the head), the separator, and the output queue with its front at the head.
\<close>

record SplitIteratorImpl =
  upstream :: "string list"
  separator :: string
  outputQueue :: "string list"

definition initialState :: StringCarryover where
  "initialState = \<lparr>carryover = ''''\<rparr>"

text \<open>
  \<^verbatim>\<open>statefulPump\<close>.  The assignment \<^verbatim>\<open>lines[0] = state.carryover + lines[0]\<close> on an
  empty array reads \<^verbatim>\<open>undefined\<close>, which the string concatenation prints, and stores
  the result as the only element of the array.  \<^verbatim>\<open>lines.slice(0, -1)\<close> is the array
  without its last element, and the array is not empty where its last element is
  read.  The calls of \<^verbatim>\<open>console.log\<close> write a trace and change neither the object
  nor the state; they are left out.
\<close>

definition statefulPump ::
  "SplitIteratorImpl \<Rightarrow> StringCarryover \<Rightarrow> StatefulPumpResult \<times> SplitIteratorImpl" where
  "statefulPump this st =
     (case upstream this of
        [] \<Rightarrow>
          if carryover st = '''' then (\<lparr>pumpDidWork = False, state = st\<rparr>, this)
          else (\<lparr>pumpDidWork = True, state = \<lparr>carryover = ''''\<rparr>\<rparr>,
                this\<lparr>outputQueue := outputQueue this @ [carryover st]\<rparr>)
      | value # rest \<Rightarrow>
          let lines = split value (separator this);
              lines = (case lines of
                         [] \<Rightarrow> [carryover st @ ''undefined'']
                       | l # ls \<Rightarrow> (carryover st @ l) # ls);
              newCarryover = last lines
          in (\<lparr>pumpDidWork = True, state = \<lparr>carryover = newCarryover\<rparr>\<rparr>,
              this\<lparr>upstream := rest, outputQueue := outputQueue this @ butlast lines\<rparr>))"

text \<open>
  A number of pumps in a row, each in the state the one before returned, with nothing
  taken from the queue in between.
\<close>

fun pumpN ::
  "nat \<Rightarrow> SplitIteratorImpl \<times> StringCarryover \<Rightarrow> SplitIteratorImpl \<times> StringCarryover" where
  "pumpN 0 (this, st) = (this, st)"
| "pumpN (Suc n) (this, st) =
     (case statefulPump this st of (r, this') \<Rightarrow> pumpN n (this', state r))"

text \<open>
  The tokens a fresh transformer emits over the fragments of an upstream: what its
  pumps have enqueued after one pump for each fragment and one for the end of the
  upstream.  Further pumps enqueue nothing (\<open>pumpN_stable\<close> below), and a consumer
  that pulls until done receives exactly these tokens (\<open>drain_tokens\<close> below).
\<close>

definition tokens :: "string \<Rightarrow> string list \<Rightarrow> string list" where
  "tokens sep frags =
     outputQueue (fst (pumpN (Suc (length frags))
       (\<lparr>upstream = frags, separator = sep, outputQueue = []\<rparr>, initialState)))"

subsection \<open>The pump as a step relation\<close>

text \<open>
  The three ways through \<^verbatim>\<open>statefulPump\<close> as the rules of a relation between the
  object and state before and the result and object after, and the runs of
  successive pumps.
\<close>

inductive pumps ::
  "SplitIteratorImpl \<Rightarrow> StringCarryover \<Rightarrow> StatefulPumpResult \<Rightarrow> SplitIteratorImpl \<Rightarrow> bool" where
  pumps_idle:
    "upstream this = [] \<Longrightarrow> carryover st = [] \<Longrightarrow>
     pumps this st \<lparr>pumpDidWork = False, state = st\<rparr> this"
| pumps_flush:
    "upstream this = [] \<Longrightarrow> carryover st \<noteq> [] \<Longrightarrow>
     pumps this st \<lparr>pumpDidWork = True, state = \<lparr>carryover = []\<rparr>\<rparr>
       (this\<lparr>outputQueue := outputQueue this @ [carryover st]\<rparr>)"
| pumps_chunk:
    "upstream this = chunk # rest \<Longrightarrow>
     lines = split chunk (separator this) \<Longrightarrow>
     lines' = (case lines of [] \<Rightarrow> [carryover st @ ''undefined'']
               | l # ls \<Rightarrow> (carryover st @ l) # ls) \<Longrightarrow>
     pumps this st \<lparr>pumpDidWork = True, state = \<lparr>carryover = last lines'\<rparr>\<rparr>
       (this\<lparr>upstream := rest, outputQueue := outputQueue this @ butlast lines'\<rparr>)"

inductive runs ::
  "SplitIteratorImpl \<Rightarrow> StringCarryover \<Rightarrow>
   (StatefulPumpResult \<times> SplitIteratorImpl) list \<Rightarrow> bool" where
  runs_Nil: "runs this st []"
| runs_Cons:
    "pumps this st r this' \<Longrightarrow> runs this' (state r) tr \<Longrightarrow>
     runs this st ((r, this') # tr)"

subsection \<open>The pull operation\<close>

text \<open>
  Modelled from the spec: the pull operation of the base class
  \<^verbatim>\<open>StatefulOneToManyIterator\<close> (file \<^verbatim>\<open>stateful_iterator.ts\<close>), which is not among
  the sources.  Section 4.2: when the output queue is not empty its front token is
  removed and returned; otherwise the pump runs and the step is retried, and a pump
  that reports no work done makes the pull return done (\<open>None\<close>).
\<close>

function statefulNext ::
  "SplitIteratorImpl \<Rightarrow> StringCarryover \<Rightarrow>
   (string option \<times> StringCarryover) \<times> SplitIteratorImpl" where
  "statefulNext this st =
     (case outputQueue this of
        t # q \<Rightarrow> ((Some t, st), this\<lparr>outputQueue := q\<rparr>)
      | [] \<Rightarrow>
          (case statefulPump this st of
             (r, this') \<Rightarrow>
               if pumpDidWork r then statefulNext this' (state r)
               else ((None, state r), this')))"
  by pat_completeness auto
termination
proof (relation "measure (\<lambda>(this, st). 2 * length (upstream this) +
    (if carryover st = [] then 0 else 1) + (if outputQueue this = [] then 1 else 0))")
qed (auto simp: statefulPump_def Let_def split: list.splits if_splits)

declare statefulNext.simps [simp del]

text \<open>The next pull, in the object and state that the last one left.\<close>

definition nextAgain ::
  "(string option \<times> StringCarryover) \<times> SplitIteratorImpl \<Rightarrow>
   (string option \<times> StringCarryover) \<times> SplitIteratorImpl" where
  "nextAgain p = statefulNext (snd p) (snd (fst p))"

section \<open>Auxiliary functions\<close>

text \<open>The array \<^verbatim>\<open>lines\<close> of the pump after the assignment to its first element.\<close>

definition pumpLines :: "string \<Rightarrow> string \<Rightarrow> string \<Rightarrow> string list" where
  "pumpLines sep c f =
     (case split f sep of [] \<Rightarrow> [c @ ''undefined''] | l # ls \<Rightarrow> (c @ l) # ls)"

text \<open>
  The tokens that the pumps over a list of fragments enqueue, the carryover they leave,
  and the tokens emitted once the upstream is done: the enqueued ones and then the
  carryover, unless it is empty.
\<close>

fun enqueued :: "string \<Rightarrow> string list \<Rightarrow> string \<Rightarrow> string list" where
  "enqueued sep [] c = []"
| "enqueued sep (f # fs) c =
     butlast (pumpLines sep c f) @ enqueued sep fs (last (pumpLines sep c f))"

fun carried :: "string \<Rightarrow> string list \<Rightarrow> string \<Rightarrow> string" where
  "carried sep [] c = c"
| "carried sep (f # fs) c = carried sep fs (last (pumpLines sep c f))"

definition emitted :: "string \<Rightarrow> string list \<Rightarrow> string \<Rightarrow> string list" where
  "emitted sep fs c =
     enqueued sep fs c @ (if carried sep fs c = [] then [] else [carried sep fs c])"

definition dropFinalEmpty :: "string list \<Rightarrow> string list" where
  "dropFinalEmpty ps = (if last ps = [] then butlast ps else ps)"

text \<open>A bound on the pumps that can still do work.\<close>

definition pending :: "SplitIteratorImpl \<Rightarrow> StringCarryover \<Rightarrow> nat" where
  "pending this st = 2 * length (upstream this) + (if carryover st = [] then 0 else 1)"

section \<open>Facts about splitting and joining\<close>

lemma splitOn_nonempty [simp]: "splitOn sep s \<noteq> []"
  by (induction sep s rule: splitOn.induct) (auto simp: neq_Nil_conv elim: prependFirst.elims)

lemma prependFirst_nonempty [simp]: "prependFirst c ps \<noteq> []"
  by (cases ps) auto

lemma split_nonempty: "sep \<noteq> [] \<or> f \<noteq> [] \<Longrightarrow> split f sep \<noteq> []"
  by (auto simp: split_def)

lemma join_Cons: "ps \<noteq> [] \<Longrightarrow> join sep (p # ps) = p @ sep @ join sep ps"
  by (cases ps) auto

lemma join_prependFirst: "ps \<noteq> [] \<Longrightarrow> join sep (prependFirst c ps) = c # join sep ps"
  by (induction sep ps rule: join.induct) auto

lemma drop_pred_length: "sep \<noteq> [] \<Longrightarrow> prefix sep (c # cs) \<Longrightarrow> sep @ drop (length sep - Suc 0) cs = c # cs"
  by (cases sep) (auto simp: prefix_def)

lemma join_splitOn: "sep \<noteq> [] \<Longrightarrow> join sep (splitOn sep s) = s"
proof (induction sep s rule: splitOn.induct)
  case (1 sep)
  then show ?case by simp
next
  case (2 sep c cs)
  show ?case
  proof (cases "prefix sep (c # cs)")
    case True
    with 2 show ?thesis
      by (simp add: join_Cons drop_pred_length)
  next
    case False
    with 2 show ?thesis by (simp add: join_prependFirst)
  qed
qed

lemma join_Nil_concat: "join [] ps = concat ps"
  by (induction "[] :: string" ps rule: join.induct) auto

lemma join_chars: "join [] (map (\<lambda>c. [c]) s) = s"
  by (induction s) (auto simp: join_Nil_concat)

lemma join_split: "join sep (split s sep) = s"
  by (simp add: split_def join_chars join_splitOn)

lemma length_prependFirst: "ps \<noteq> [] \<Longrightarrow> length (prependFirst c ps) = length ps"
  by (cases ps) auto

lemma length_splitOn: "length (splitOn sep s) = Suc (occurrences sep s)"
  by (induction sep s rule: splitOn.induct) (auto simp: length_prependFirst)

lemma split_examples:
  "sep \<noteq> [] \<Longrightarrow> split [] sep = [[]]"
  "sep \<noteq> [] \<Longrightarrow> split sep sep = [[], []]"
  "sep \<noteq> [] \<Longrightarrow> split (sep @ s) sep = [] # split s sep"
  by (cases sep; simp add: split_def)+

lemma join_append:
  "ys \<noteq> [] \<Longrightarrow> join sep (xs @ ys) = concat (map (\<lambda>x. x @ sep) xs) @ join sep ys"
  by (induction xs) (auto simp: join_Cons)

lemma join_butlast_last:
  "ps \<noteq> [] \<Longrightarrow> concat (map (\<lambda>x. x @ sep) (butlast ps)) @ last ps = join sep ps"
  using join_append [of "[last ps]" sep "butlast ps"] by simp

subsection \<open>A separator of one character\<close>

lemma splitOn_single_Cons:
  "splitOn [d] (c # cs) = (if c = d then [] # splitOn [d] cs else prependFirst c (splitOn [d] cs))"
  by simp

lemma set_prependFirst:
  "p \<in> set (prependFirst c ps) \<Longrightarrow> p \<in> set ps \<or> (\<exists>q. p = c # q \<and> (q = [] \<or> q \<in> set ps))"
  by (cases ps) auto

lemma splitOn_single_parts: "p \<in> set (splitOn [d] s) \<Longrightarrow> d \<notin> set p"
proof (induction s arbitrary: p)
  case Nil
  then show ?case by simp
next
  case (Cons c cs)
  show ?case
  proof (cases "c = d")
    case True
    with Cons show ?thesis by auto
  next
    case False
    with Cons.prems have "p \<in> set (prependFirst c (splitOn [d] cs))" by simp
    from set_prependFirst [OF this] Cons.IH False show ?thesis by auto
  qed
qed

lemma splitOn_single_free: "d \<notin> set c \<Longrightarrow> splitOn [d] (c @ f) = (c @ hd (splitOn [d] f)) # tl (splitOn [d] f)"
proof (induction c)
  case Nil
  then show ?case by simp
next
  case (Cons x c)
  then show ?case by (cases "splitOn [d] f") auto
qed

lemma splitOn_single_append:
  "splitOn [d] (a @ b) = butlast (splitOn [d] a) @ splitOn [d] (last (splitOn [d] a) @ b)"
proof (induction a)
  case Nil
  then show ?case by simp
next
  case (Cons x a)
  show ?case
  proof (cases "x = d")
    case True
    with Cons show ?thesis by simp
  next
    case False
    obtain p ps where sp: "splitOn [d] a = p # ps"
      by (cases "splitOn [d] a") auto
    show ?thesis
    proof (cases ps)
      case Nil
      with False Cons sp show ?thesis by simp
    next
      case (Cons q qs)
      with False Cons.IH sp show ?thesis by simp
    qed
  qed
qed

lemma splitOn_single_snoc: "splitOn [d] (a @ [d]) = splitOn [d] a @ [[]]"
proof -
  let ?L = "splitOn [d] a"
  have nd: "d \<notin> set (last ?L)"
    by (rule splitOn_single_parts [of _ d a]) simp
  have "splitOn [d] (last ?L @ [d]) = [last ?L, []]"
    using splitOn_single_free [OF nd, of "[d]"] by simp
  then have "splitOn [d] (a @ [d]) = butlast ?L @ [last ?L, []]"
    using splitOn_single_append [of d a "[d]"] by simp
  also have "\<dots> = ?L @ [[]]"
    using append_butlast_last_id [of ?L] by simp
  finally show ?thesis .
qed

lemma occurrences_single: "occurrences [d] s = 0 \<longleftrightarrow> d \<notin> set s"
  by (induction s) auto

lemma occurrences_count_list: "occurrences [d] s = count_list s d"
  by (induction s) auto

lemma dropFinalEmpty_append: "ys \<noteq> [] \<Longrightarrow> dropFinalEmpty (xs @ ys) = xs @ dropFinalEmpty ys"
  by (simp add: dropFinalEmpty_def butlast_append)

section \<open>The pump, branch by branch\<close>

lemma pumpLines_nonempty [simp]: "pumpLines sep c f \<noteq> []"
  by (simp add: pumpLines_def split: list.split)

lemma statefulPump_done_empty:
  "upstream this = [] \<Longrightarrow> carryover st = [] \<Longrightarrow>
   statefulPump this st = (\<lparr>pumpDidWork = False, state = st\<rparr>, this)"
  by (simp add: statefulPump_def)

lemma statefulPump_done_flush:
  "upstream this = [] \<Longrightarrow> carryover st \<noteq> [] \<Longrightarrow>
   statefulPump this st =
     (\<lparr>pumpDidWork = True, state = \<lparr>carryover = []\<rparr>\<rparr>,
      this\<lparr>outputQueue := outputQueue this @ [carryover st]\<rparr>)"
  by (simp add: statefulPump_def)

lemma statefulPump_chunk:
  "upstream this = f # rest \<Longrightarrow>
   statefulPump this st =
     (\<lparr>pumpDidWork = True,
       state = \<lparr>carryover = last (pumpLines (separator this) (carryover st) f)\<rparr>\<rparr>,
      this\<lparr>upstream := rest,
           outputQueue := outputQueue this @
             butlast (pumpLines (separator this) (carryover st) f)\<rparr>)"
  by (simp add: statefulPump_def pumpLines_def Let_def)

lemma pump_fragment_branch:
  assumes "upstream this = f # rest" and "separator this \<noteq> [] \<or> f \<noteq> []"
  shows "statefulPump this st =
     (\<lparr>pumpDidWork = True,
       state = \<lparr>carryover =
         last ((carryover st @ hd (split f (separator this))) # tl (split f (separator this)))\<rparr>\<rparr>,
      this\<lparr>upstream := rest,
           outputQueue := outputQueue this @
             butlast ((carryover st @ hd (split f (separator this))) #
               tl (split f (separator this)))\<rparr>)"
  using split_nonempty [OF assms(2)]
  by (cases "split f (separator this)")
    (simp_all add: statefulPump_chunk [OF assms(1)] pumpLines_def)

subsection \<open>The step relation is the function\<close>

lemma pumps_statefulPump: "pumps this st r this' \<longleftrightarrow> statefulPump this st = (r, this')"
proof
  assume "pumps this st r this'"
  then show "statefulPump this st = (r, this')"
    by cases (simp_all add: statefulPump_def Let_def)
next
  assume a: "statefulPump this st = (r, this')"
  show "pumps this st r this'"
  proof (cases "upstream this")
    case Nil
    with a show ?thesis
      by (cases "carryover st = []")
        (auto simp: statefulPump_def intro: pumps_idle pumps_flush)
  next
    case (Cons f rest)
    from pumps_chunk [OF Cons refl refl, of st] a Cons show ?thesis
      by (simp add: statefulPump_def Let_def)
  qed
qed

lemma pumps_deterministic:
  "pumps this st r1 t1 \<Longrightarrow> pumps this st r2 t2 \<Longrightarrow> r1 = r2 \<and> t1 = t2"
  by (erule pumps.cases; erule pumps.cases; auto)

lemma runs_deterministic:
  "runs this st tr1 \<Longrightarrow> runs this st tr2 \<Longrightarrow> length tr1 = length tr2 \<Longrightarrow> tr1 = tr2"
proof (induction arbitrary: tr2 rule: runs.induct)
  case (runs_Nil this st)
  then show ?case by simp
next
  case (runs_Cons this st r this' tr)
  from runs_Cons.prems(1) runs_Cons.prems(2) obtain r2 t2 tr' where
    tr2: "tr2 = (r2, t2) # tr'" and p2: "pumps this st r2 t2" and r2: "runs t2 (state r2) tr'"
    by (cases rule: runs.cases) auto
  from pumps_deterministic [OF runs_Cons.hyps(1) p2] have eq: "r2 = r" "t2 = this'" by auto
  from runs_Cons.IH [of tr'] r2 eq runs_Cons.prems(2) tr2 show ?case by simp
qed

lemma runs_total: "\<exists>tr. runs this st tr \<and> length tr = n"
proof (induction n arbitrary: this st)
  case 0
  show ?case by (auto intro: runs_Nil)
next
  case (Suc n)
  obtain r this' where p: "statefulPump this st = (r, this')" by (cases "statefulPump this st")
  from Suc [of this' "state r"] obtain tr where "runs this' (state r) tr" "length tr = n" by auto
  with p show ?case
    by (auto intro!: exI [of _ "(r, this') # tr"] runs_Cons simp: pumps_statefulPump)
qed

section \<open>Pulling until done\<close>

lemma statefulNext_queue:
  "outputQueue this = t # q \<Longrightarrow>
   statefulNext this st = ((Some t, st), this\<lparr>outputQueue := q\<rparr>)"
  by (simp add: statefulNext.simps [of this st])

lemma statefulNext_done:
  "outputQueue this = [] \<Longrightarrow> upstream this = [] \<Longrightarrow> carryover st = [] \<Longrightarrow>
   statefulNext this st = ((None, st), this)"
  by (simp add: statefulNext.simps [of this st] statefulPump_done_empty)

lemma statefulNext_flush:
  "outputQueue this = [] \<Longrightarrow> upstream this = [] \<Longrightarrow> carryover st \<noteq> [] \<Longrightarrow>
   statefulNext this st = ((Some (carryover st), \<lparr>carryover = []\<rparr>), this)"
  by (simp add: statefulNext.simps [of this st] statefulPump_done_flush
      statefulNext.simps [of "this\<lparr>outputQueue := [carryover st]\<rparr>"])

lemma statefulNext_chunk:
  "outputQueue this = [] \<Longrightarrow> upstream this = f # rest \<Longrightarrow>
   statefulNext this st =
     statefulNext
       (this\<lparr>upstream := rest,
             outputQueue := butlast (pumpLines (separator this) (carryover st) f)\<rparr>)
       \<lparr>carryover = last (pumpLines (separator this) (carryover st) f)\<rparr>"
  by (simp add: statefulNext.simps [of this st] statefulPump_chunk)

lemma statefulNext_pending:
  "statefulNext this st = ((res, st'), this') \<Longrightarrow>
   pending this' st' \<le> pending this st \<and>
   (if outputQueue this = []
    then res \<noteq> None \<longrightarrow> pending this' st' < pending this st
    else length (outputQueue this') < length (outputQueue this))"
proof (induction this st arbitrary: res st' this' rule: statefulNext.induct)
  case (1 this st)
  show ?case
  proof (cases "outputQueue this")
    case (Cons t q)
    with "1.prems" show ?thesis
      by (auto simp: statefulNext.simps [of this st] pending_def)
  next
    case Nil
    show ?thesis
    proof (cases "upstream this")
      case (Cons f rest)
      note ch = statefulPump_chunk [OF Cons, of st]
      let ?r = "fst (statefulPump this st)" and ?t = "snd (statefulPump this st)"
      have nx: "statefulNext ?t (state ?r) = ((res, st'), this')"
        using "1.prems" Nil ch by (simp add: statefulNext.simps [of this st])
      have dec: "pending ?t (state ?r) < pending this st"
        using Cons ch by (simp add: pending_def)
      have "pending this' st' \<le> pending ?t (state ?r)"
        using "1.IH" [OF Nil _ _ nx] ch by simp
      with dec Nil show ?thesis by simp
    next
      case up: Nil
      show ?thesis
      proof (cases "carryover st = []")
        case True
        with "1.prems" Nil up show ?thesis
          by (simp add: statefulNext.simps [of this st] statefulPump_done_empty)
      next
        case False
        with "1.prems" Nil up show ?thesis
          by (auto simp: statefulNext.simps [of this st] statefulPump_done_flush
              statefulNext.simps [of "this\<lparr>outputQueue := [carryover st]\<rparr>"] pending_def)
      qed
    qed
  qed
qed

text \<open>
  Modelled from the spec: the consumer, which is not among the sources.  It pulls
  until the transformer reports done (section 2) and so sees the emitted tokens in
  order.
\<close>

function drain :: "SplitIteratorImpl \<Rightarrow> StringCarryover \<Rightarrow> string list" where
  "drain this st =
     (case statefulNext this st of
        ((None, st'), this') \<Rightarrow> []
      | ((Some t, st'), this') \<Rightarrow> t # drain this' st')"
  by pat_completeness auto
termination
proof (relation "measures [\<lambda>(this, st). pending this st,
    \<lambda>(this, st). length (outputQueue this)]", goal_cases)
  case 1
  show ?case by simp
next
  case (2 this st x1 this' res st' t)
  then have "statefulNext this st = ((Some t, st'), this')" by simp
  from statefulNext_pending [OF this] show ?case
    by (cases "outputQueue this = []") auto
qed

declare drain.simps [simp del]

lemma emitted_Nil: "emitted sep [] c = (if c = [] then [] else [c])"
  by (simp add: emitted_def)

lemma emitted_Cons:
  "emitted sep (f # fs) c =
     butlast (pumpLines sep c f) @ emitted sep fs (last (pumpLines sep c f))"
  by (simp add: emitted_def)

lemma statefulNext_emitted:
  "statefulNext this st = ((res, st'), this') \<Longrightarrow>
   separator this' = separator this \<and>
   outputQueue this @ emitted (separator this) (upstream this) (carryover st) =
     (case res of
        None \<Rightarrow> []
      | Some t \<Rightarrow> t # outputQueue this' @
          emitted (separator this) (upstream this') (carryover st'))"
proof (induction this st arbitrary: res st' this' rule: statefulNext.induct)
  case (1 this st)
  show ?case
  proof (cases "outputQueue this")
    case (Cons t q)
    with "1.prems" show ?thesis by (auto simp: statefulNext_queue)
  next
    case Nil
    show ?thesis
    proof (cases "upstream this")
      case (Cons f rest)
      note ch = statefulPump_chunk [OF Cons, of st]
      let ?r = "fst (statefulPump this st)" and ?t = "snd (statefulPump this st)"
      have nx: "statefulNext ?t (state ?r) = ((res, st'), this')"
        using "1.prems" Nil ch by (simp add: statefulNext.simps [of this st])
      from "1.IH" [OF Nil _ _ nx] ch Nil Cons show ?thesis
        by (cases res) (simp_all add: emitted_Cons)
    next
      case up: Nil
      show ?thesis
      proof (cases "carryover st = []")
        case True
        with "1.prems" Nil up show ?thesis
          by (auto simp: statefulNext_done emitted_Nil)
      next
        case False
        with "1.prems" Nil up show ?thesis
          by (auto simp: statefulNext_flush emitted_Nil)
      qed
    qed
  qed
qed

lemma drain_emitted:
  "drain this st = outputQueue this @ emitted (separator this) (upstream this) (carryover st)"
proof (induction this st rule: drain.induct)
  case (1 this st)
  obtain res st' this' where nx: "statefulNext this st = ((res, st'), this')"
    by (metis prod.exhaust)
  note em = statefulNext_emitted [OF nx]
  show ?case
  proof (cases res)
    case None
    with nx em show ?thesis by (simp add: drain.simps [of this st])
  next
    case (Some t)
    with "1.IH" [OF nx [symmetric, unfolded Some] refl refl] nx em show ?thesis
      by (simp add: drain.simps [of this st])
  qed
qed

lemma statefulNext_None:
  "statefulNext this st = ((None, st'), this') \<Longrightarrow>
   outputQueue this' = [] \<and> upstream this' = [] \<and> carryover st' = []"
proof (induction this st arbitrary: st' this' rule: statefulNext.induct)
  case (1 this st)
  show ?case
  proof (cases "outputQueue this")
    case (Cons t q)
    with "1.prems" show ?thesis by (auto simp: statefulNext_queue)
  next
    case Nil
    show ?thesis
    proof (cases "upstream this")
      case (Cons f rest)
      note ch = statefulPump_chunk [OF Cons, of st]
      let ?r = "fst (statefulPump this st)" and ?t = "snd (statefulPump this st)"
      have nx: "statefulNext ?t (state ?r) = ((None, st'), this')"
        using "1.prems" Nil ch by (simp add: statefulNext.simps [of this st])
      from "1.IH" [OF Nil _ _ nx] ch show ?thesis by simp
    next
      case up: Nil
      show ?thesis
      proof (cases "carryover st = []")
        case True
        with "1.prems" Nil up show ?thesis
          by (auto simp: statefulNext_done)
      next
        case False
        with "1.prems" Nil up show ?thesis
          by (auto simp: statefulNext_flush)
      qed
    qed
  qed
qed

lemma statefulNext_done_fixed:
  assumes "statefulNext this st = ((None, st'), this')"
  shows "statefulNext this' st' = ((None, st'), this')"
  using statefulNext_None [OF assms] by (simp add: statefulNext_done)

section \<open>Pumping through an upstream\<close>

lemma pumpN_0 [simp]: "pumpN 0 p = p"
  by (cases p) simp

lemma pumpN_add: "pumpN (m + n) p = pumpN n (pumpN m p)"
proof (induction m arbitrary: p)
  case 0
  show ?case by simp
next
  case (Suc m)
  obtain this st where p: "p = (this, st)" by (cases p)
  show ?case by (simp add: p Suc split: prod.split)
qed

lemma pumpN_upstream:
  "upstream this = fs \<Longrightarrow>
   pumpN (length fs) (this, st) =
     (this\<lparr>upstream := [],
           outputQueue := outputQueue this @ enqueued (separator this) fs (carryover st)\<rparr>,
      \<lparr>carryover = carried (separator this) fs (carryover st)\<rparr>)"
proof (induction fs arbitrary: this st)
  case Nil
  then show ?case by simp
next
  case (Cons f fs)
  let ?L = "pumpLines (separator this) (carryover st) f"
  let ?t = "this\<lparr>upstream := fs, outputQueue := outputQueue this @ butlast ?L\<rparr>"
  have "upstream ?t = fs" by simp
  from Cons.IH [OF this, of "\<lparr>carryover = last ?L\<rparr>"] show ?case
    by (simp add: statefulPump_chunk [OF Cons.prems])
qed

lemma pumpN_idle:
  "upstream this = [] \<Longrightarrow> carryover st = [] \<Longrightarrow> pumpN n (this, st) = (this, st)"
  by (induction n) (simp_all add: statefulPump_done_empty)

lemma pumpN_done:
  assumes "upstream this = []"
  shows "pumpN (Suc n) (this, st) =
     (this\<lparr>outputQueue := outputQueue this @ (if carryover st = [] then [] else [carryover st])\<rparr>,
      \<lparr>carryover = []\<rparr>)"
proof (cases "carryover st = []")
  case True
  then show ?thesis using assms pumpN_idle [of this st "Suc n"] by simp
next
  case False
  then show ?thesis
    using assms pumpN_idle [of "this\<lparr>outputQueue := outputQueue this @ [carryover st]\<rparr>"
        "\<lparr>carryover = []\<rparr>" n]
    by (simp add: statefulPump_done_flush)
qed

lemma pumpN_all:
  assumes "upstream this = fs"
  shows "pumpN (length fs + Suc k) (this, st) =
     (this\<lparr>upstream := [],
           outputQueue := outputQueue this @ emitted (separator this) fs (carryover st)\<rparr>,
      \<lparr>carryover = []\<rparr>)"
proof -
  let ?t = "this\<lparr>upstream := [],
      outputQueue := outputQueue this @ enqueued (separator this) fs (carryover st)\<rparr>"
  let ?s = "\<lparr>carryover = carried (separator this) fs (carryover st)\<rparr>"
  have "pumpN (length fs + Suc k) (this, st) = pumpN (Suc k) (?t, ?s)"
    by (simp only: pumpN_add pumpN_upstream [OF assms])
  also have "\<dots> = (?t\<lparr>outputQueue := outputQueue ?t @
      (if carryover ?s = [] then [] else [carryover ?s])\<rparr>, \<lparr>carryover = []\<rparr>)"
    by (rule pumpN_done) simp
  finally show ?thesis by (simp add: emitted_def)
qed

lemma tokens_emitted: "tokens sep frags = emitted sep frags []"
  using pumpN_all [of "\<lparr>upstream = frags, separator = sep, outputQueue = []\<rparr>" frags 0 initialState]
  by (simp add: tokens_def initialState_def del: pumpN.simps)

lemma pumpN_stable:
  "Suc (length frags) \<le> n \<Longrightarrow>
   pumpN n (\<lparr>upstream = frags, separator = sep, outputQueue = []\<rparr>, initialState) =
     (\<lparr>upstream = [], separator = sep, outputQueue = tokens sep frags\<rparr>, \<lparr>carryover = []\<rparr>)"
  using pumpN_all [of "\<lparr>upstream = frags, separator = sep, outputQueue = []\<rparr>" frags
      "n - Suc (length frags)" initialState]
  by (simp add: tokens_emitted initialState_def del: pumpN.simps)

lemma drain_tokens:
  "drain \<lparr>upstream = frags, separator = sep, outputQueue = []\<rparr> initialState = tokens sep frags"
  by (simp add: drain_emitted tokens_emitted initialState_def)

section \<open>What the pumps enqueue and carry over\<close>

lemma join_pumpLines:
  "sep \<noteq> [] \<or> f \<noteq> [] \<Longrightarrow> join sep (pumpLines sep c f) = c @ f"
proof -
  assume a: "sep \<noteq> [] \<or> f \<noteq> []"
  then have ne: "split f sep \<noteq> []" by (auto simp: split_def)
  then obtain l ls where s: "split f sep = l # ls" by (cases "split f sep") auto
  have "join sep (l # ls) = f" using join_split [of sep f] s by simp
  then have "join sep ((c @ l) # ls) = c @ f"
    by (cases ls) auto
  then show ?thesis by (simp add: pumpLines_def s)
qed

lemma length_pumpLines:
  "sep \<noteq> [] \<Longrightarrow> length (pumpLines sep c f) = Suc (occurrences sep f)"
  using length_splitOn [of sep f]
  by (cases "splitOn sep f") (auto simp: pumpLines_def split_def)

lemma pumpLines_empty: "sep \<noteq> [] \<Longrightarrow> pumpLines sep c [] = [c]"
  by (simp add: pumpLines_def split_def)

lemma pumpLines_single:
  "d \<notin> set c \<Longrightarrow> pumpLines [d] c f = splitOn [d] (c @ f)"
  by (cases "splitOn [d] f") (auto simp: pumpLines_def split_def splitOn_single_free)

lemma pumpLines_single_parts:
  "d \<notin> set c \<Longrightarrow> p \<in> set (pumpLines [d] c f) \<Longrightarrow> d \<notin> set p"
  by (simp add: pumpLines_single splitOn_single_parts)

lemma pump_join:
  assumes "upstream this = f # rest" and "separator this \<noteq> [] \<or> f \<noteq> []"
  shows "\<exists>ts. outputQueue (snd (statefulPump this st)) = outputQueue this @ ts \<and>
     join (separator this) (ts @ [carryover (state (fst (statefulPump this st)))]) =
       carryover st @ f"
proof -
  let ?L = "pumpLines (separator this) (carryover st) f"
  have "join (separator this) (butlast ?L @ [last ?L]) = carryover st @ f"
    using join_pumpLines [OF assms(2), of "carryover st"] by simp
  then show ?thesis
    by (simp add: statefulPump_chunk [OF assms(1)])
qed

lemma pump_carryover_single:
  assumes "separator this = [d]" and "d \<notin> set (carryover st)"
  shows "d \<notin> set (carryover (state (fst (statefulPump this st))))"
proof (cases "upstream this")
  case Nil
  with assms show ?thesis by (simp add: statefulPump_def)
next
  case (Cons f rest)
  have "last (pumpLines [d] (carryover st) f) \<in> set (pumpLines [d] (carryover st) f)"
    by simp
  from pumpLines_single_parts [OF assms(2) this] show ?thesis
    by (simp add: statefulPump_chunk [OF Cons] assms(1))
qed

lemma pump_queue_single:
  assumes "separator this = [d]" and "d \<notin> set (carryover st)"
    and "\<forall>t \<in> set (outputQueue this). d \<notin> set t"
  shows "\<forall>t \<in> set (outputQueue (snd (statefulPump this st))). d \<notin> set t"
proof (cases "upstream this")
  case Nil
  with assms show ?thesis by (simp add: statefulPump_def)
next
  case (Cons f rest)
  have "d \<notin> set t" if "t \<in> set (butlast (pumpLines [d] (carryover st) f))" for t
    using in_set_butlastD [OF that] pumpLines_single_parts [OF assms(2)] by blast
  with assms(3) show ?thesis
    by (auto simp: statefulPump_chunk [OF Cons] assms(1))
qed

lemma join_enqueued_carried:
  "sep \<noteq> [] \<or> [] \<notin> set fs \<Longrightarrow>
   join sep (enqueued sep fs c @ [carried sep fs c]) = c @ concat fs"
proof (induction fs arbitrary: c)
  case Nil
  then show ?case by simp
next
  case (Cons f fs)
  let ?L = "pumpLines sep c f"
  have ok: "sep \<noteq> [] \<or> f \<noteq> []" using Cons.prems by auto
  have "join sep (enqueued sep (f # fs) c @ [carried sep (f # fs) c]) =
        concat (map (\<lambda>x. x @ sep) (butlast ?L)) @
          join sep (enqueued sep fs (last ?L) @ [carried sep fs (last ?L)])"
    by (simp add: join_append)
  also have "\<dots> = concat (map (\<lambda>x. x @ sep) (butlast ?L)) @ last ?L @ concat fs"
    using Cons.IH [of "last ?L"] Cons.prems by auto
  also have "\<dots> = join sep ?L @ concat fs"
    using join_butlast_last [of ?L sep] by simp
  also have "\<dots> = c @ concat (f # fs)"
    using join_pumpLines [OF ok] by simp
  finally show ?case .
qed

lemma join_emitted:
  assumes "sep \<noteq> [] \<or> [] \<notin> set fs"
  shows "join sep (emitted sep fs c) =
     (if carried sep fs c = [] \<and> enqueued sep fs c \<noteq> []
      then take (length (c @ concat fs) - length sep) (c @ concat fs) else c @ concat fs)"
    and "carried sep fs c = [] \<Longrightarrow> enqueued sep fs c \<noteq> [] \<Longrightarrow>
      join sep (emitted sep fs c) @ sep = c @ concat fs"
proof -
  note rt = join_enqueued_carried [OF assms, of c]
  show 2: "join sep (emitted sep fs c) @ sep = c @ concat fs"
    if "carried sep fs c = []" "enqueued sep fs c \<noteq> []"
    using that rt join_append [of "[[]]" sep "enqueued sep fs c"]
      join_butlast_last [of "enqueued sep fs c" sep]
    by (cases "enqueued sep fs c" rule: rev_cases) (auto simp: emitted_def join_append)
  show "join sep (emitted sep fs c) =
     (if carried sep fs c = [] \<and> enqueued sep fs c \<noteq> []
      then take (length (c @ concat fs) - length sep) (c @ concat fs) else c @ concat fs)"
  proof (cases "carried sep fs c = []")
    case False
    then show ?thesis using rt by (simp add: emitted_def)
  next
    case True
    show ?thesis
    proof (cases "enqueued sep fs c = []")
      case e: True
      with True rt show ?thesis by (simp add: emitted_def)
    next
      case e: False
      from 2 [OF True e] have "c @ concat fs = join sep (emitted sep fs c) @ sep" by simp
      then have "take (length (c @ concat fs) - length sep) (c @ concat fs) = join sep (emitted sep fs c)"
        by (metis append_eq_conv_conj diff_add_inverse2 length_append)
      with True e show ?thesis by simp
    qed
  qed
qed

lemma join_tokens_cases:
  assumes "sep \<noteq> [] \<or> [] \<notin> set frags"
  shows "join sep (tokens sep frags) = concat frags \<or>
         join sep (tokens sep frags) @ sep = concat frags"
proof (cases "carried sep frags [] = [] \<and> enqueued sep frags [] \<noteq> []")
  case True
  then show ?thesis using join_emitted(2) [OF assms, of "[]"] by (simp add: tokens_emitted)
next
  case False
  then show ?thesis using join_emitted(1) [OF assms, of "[]"] by (auto simp: tokens_emitted)
qed

lemma emitted_single:
  "d \<notin> set c \<Longrightarrow> emitted [d] fs c = dropFinalEmpty (splitOn [d] (c @ concat fs))"
proof (induction fs arbitrary: c)
  case Nil
  then show ?case
    using splitOn_single_free [of d c "[]"] by (simp add: emitted_Nil dropFinalEmpty_def)
next
  case (Cons f fs)
  let ?L = "splitOn [d] (c @ f)"
  have "d \<notin> set (last ?L)"
    by (rule splitOn_single_parts [of _ d "c @ f"]) simp
  from Cons.IH [OF this] Cons.prems show ?case
    using splitOn_single_append [of d "c @ f" "concat fs"]
    by (simp add: emitted_Cons pumpLines_single dropFinalEmpty_append)
qed

lemma tokens_single: "tokens [d] frags = dropFinalEmpty (splitOn [d] (concat frags))"
  using emitted_single [of d "[]" frags] by (simp add: tokens_emitted)

lemma tokens_single_parts: "t \<in> set (tokens [d] frags) \<Longrightarrow> d \<notin> set t"
  using splitOn_single_parts [of t d "concat frags"]
  by (auto simp: tokens_single dropFinalEmpty_def dest: in_set_butlastD split: if_splits)

lemma join_tokens_single:
  "join [d] (tokens [d] frags) =
     (if suffix [d] (concat frags) then butlast (concat frags) else concat frags)"
proof (cases "suffix [d] (concat frags)")
  case True
  then obtain a where a: "concat frags = a @ [d]" by (auto simp: suffix_def)
  have "tokens [d] frags = splitOn [d] a"
    by (simp add: tokens_single a splitOn_single_snoc dropFinalEmpty_def)
  then show ?thesis using True a by (simp add: join_splitOn)
next
  case False
  have "sep \<noteq> [] \<or> [] \<notin> set frags" if "sep = [d]" for sep using that by simp
  from join_tokens_cases [OF this [OF refl]] False show ?thesis
    by (metis suffixI)
qed

lemma emitted_empty_fragment: "sep \<noteq> [] \<Longrightarrow> emitted sep ([] # fs) c = emitted sep fs c"
  by (simp add: emitted_Cons pumpLines_empty)

lemma emitted_filter:
  "sep \<noteq> [] \<Longrightarrow> emitted sep (filter (\<lambda>f. f \<noteq> []) fs) c = emitted sep fs c"
proof (induction fs arbitrary: c)
  case Nil
  then show ?case by simp
next
  case (Cons f fs)
  then show ?case
    by (cases "f = []") (simp_all add: pumpLines_empty emitted_Cons)
qed

lemma tokens_chars: "f \<noteq> [] \<Longrightarrow> tokens [] [f] = map (\<lambda>c. [c]) f"
proof -
  assume ne: "f \<noteq> []"
  let ?L = "map (\<lambda>c. [c]) f"
  have L: "pumpLines [] [] f = ?L"
    using ne by (cases f) (simp_all add: pumpLines_def split_def)
  have "last ?L \<noteq> []" using ne by (simp add: last_map)
  moreover have "butlast ?L @ [last ?L] = ?L" using ne by simp
  ultimately show ?thesis
    by (simp add: tokens_emitted emitted_Cons emitted_Nil L del: append_butlast_last_id)
qed

lemma funpow_fixed: "g x = x \<Longrightarrow> (g ^^ n) x = x"
  by (induction n) simp_all

section \<open>The claims\<close>

text \<open>
  C1 (round trip), as amended.  The transformer never emits a final empty token: the
  pump at the end of the upstream enqueues the carryover only when it is not empty.
  For every finite sequence of fragments and every delimiter, leaving out an empty
  fragment under the empty delimiter, the emitted tokens joined by the delimiter are
  the concatenation of the fragments, or the concatenation without one delimiter at
  its end; they are the concatenation itself whenever it does not end with the
  delimiter, and for a delimiter of one character they lack the final delimiter
  whenever the concatenation ends with it.  After each pump of a fragment, the
  tokens it enqueued followed by the new carryover, joined by the delimiter, are the
  old carryover followed by the fragment.
\<close>

theorem roundtrip_without_final_empty_token:
  "(sep \<noteq> [] \<or> [] \<notin> set frags \<longrightarrow>
      (join sep (tokens sep frags) = concat frags \<or>
       join sep (tokens sep frags) @ sep = concat frags) \<and>
      (\<not> suffix sep (concat frags) \<longrightarrow> join sep (tokens sep frags) = concat frags)) \<and>
   (suffix [d] (concat frags) \<longrightarrow> join [d] (tokens [d] frags) @ [d] = concat frags) \<and>
   (upstream this = f # rest \<and> (separator this \<noteq> [] \<or> f \<noteq> []) \<longrightarrow>
      (\<exists>ts. outputQueue (snd (statefulPump this st)) = outputQueue this @ ts \<and>
         join (separator this) (ts @ [carryover (state (fst (statefulPump this st)))]) =
           carryover st @ f))"
proof (intro conjI impI)
  assume a: "sep \<noteq> [] \<or> [] \<notin> set frags"
  show c: "join sep (tokens sep frags) = concat frags \<or>
      join sep (tokens sep frags) @ sep = concat frags"
    by (rule join_tokens_cases [OF a])
  show "join sep (tokens sep frags) = concat frags" if "\<not> suffix sep (concat frags)"
    using c that by (metis suffixI)
next
  assume "suffix [d] (concat frags)"
  then show "join [d] (tokens [d] frags) @ [d] = concat frags"
    by (auto simp: join_tokens_single suffix_def)
next
  assume "upstream this = f # rest \<and> (separator this \<noteq> [] \<or> f \<noteq> [])"
  then show "\<exists>ts. outputQueue (snd (statefulPump this st)) = outputQueue this @ ts \<and>
         join (separator this) (ts @ [carryover (state (fst (statefulPump this st)))]) =
           carryover st @ f"
    using pump_join by blast
qed

theorem roundtrip_counterexample:
  "join '','' (tokens '','' [''a,'']) \<noteq> concat [''a,'']"
  by (simp add: tokens_emitted emitted_def pumpLines_def split_def)

theorem roundtrip_without_final_empty_token_witness:
  "'','' \<noteq> [] \<and>
   suffix '','' (concat [''a,b'', '',c'', '','']) \<and>
   join '','' (tokens '','' [''a,b'', '',c'', '','']) @ '','' = concat [''a,b'', '',c'', '',''] \<and>
   upstream \<lparr>upstream = [''b,c''], separator = '','', outputQueue = [''q'']\<rparr> = [''b,c''] \<and>
   (\<exists>ts. outputQueue (snd (statefulPump
             \<lparr>upstream = [''b,c''], separator = '','', outputQueue = [''q'']\<rparr>
             \<lparr>carryover = ''a''\<rparr>)) = [''q''] @ ts \<and>
         join '','' (ts @ [carryover (state (fst (statefulPump
             \<lparr>upstream = [''b,c''], separator = '','', outputQueue = [''q'']\<rparr>
             \<lparr>carryover = ''a''\<rparr>)))]) = ''a'' @ ''b,c'')"
proof -
  have s: "suffix '','' (concat [''a,b'', '',c'', '',''])"
    by (simp add: suffix_def)
  show ?thesis
    using s roundtrip_without_final_empty_token
      [of "'',''" "[''a,b'', '',c'', '','']" "CHR '',''"
        "\<lparr>upstream = [''b,c''], separator = '','', outputQueue = [''q'']\<rparr>" "''b,c''" "[]"
        "\<lparr>carryover = ''a''\<rparr>"]
    by simp
qed

text \<open>
  C2 (boundary independence), as amended.  For every delimiter of exactly one
  character, two finite sequences of fragments with the same concatenation yield the
  same tokens.  A longer delimiter that straddles a fragment boundary is not seen,
  and under the empty delimiter the code unit before a boundary is joined to the
  one behind it.
\<close>

theorem boundary_independence_single_char:
  "concat frags1 = concat frags2 \<Longrightarrow> tokens [d] frags1 = tokens [d] frags2"
  by (simp add: tokens_single)

theorem boundary_independence_counterexample:
  "concat [''xa'', ''by''] = concat [''xaby''] \<and>
   tokens ''ab'' [''xa'', ''by''] \<noteq> tokens ''ab'' [''xaby''] \<and>
   concat [''a'', ''b''] = concat [''ab''] \<and>
   tokens '''' [''a'', ''b''] \<noteq> tokens '''' [''ab'']"
  by (simp add: tokens_emitted emitted_def pumpLines_def split_def)

theorem boundary_independence_single_char_witness:
  "concat [''a,b'', '',c''] = concat [''a'', '',b,'', ''c''] \<and>
   tokens '','' [''a,b'', '',c''] = tokens '','' [''a'', '',b,'', ''c'']"
  using boundary_independence_single_char
    [of "[''a,b'', '',c'']" "[''a'', '',b,'', ''c'']" "CHR '',''"]
  by simp

text \<open>
  C3 (the pump of a fragment).  With the empty delimiter and the empty fragment the
  split yields no part at all; the pump then appends the text \<open>undefined\<close> to the
  carryover, where the claim has the empty fragment yield one empty part and leave
  the carryover \<open>a\<close> as it is.
\<close>

theorem pump_empty_fragment_empty_separator:
  "statefulPump \<lparr>upstream = [''''], separator = '''', outputQueue = []\<rparr>
       \<lparr>carryover = ''a''\<rparr> =
     (\<lparr>pumpDidWork = True, state = \<lparr>carryover = ''aundefined''\<rparr>\<rparr>,
      \<lparr>upstream = [], separator = '''', outputQueue = []\<rparr>) \<and>
   split '''' '''' = [] \<and>
   tokens '''' [''a'', ''''] = [''aundefined'']"
  by (simp add: statefulPump_def split_def tokens_emitted emitted_def pumpLines_def)

text \<open>
  C4 (upstream-done branch).  When the upstream pull reports done, the pump reports no
  work done, with the state unchanged and nothing enqueued, if the carryover is empty;
  otherwise it enqueues the carryover as one token, resets the carryover to empty and
  reports work done.  The pump after that reports no work done.
\<close>

theorem upstream_done_branch:
  "upstream this = [] \<Longrightarrow>
   statefulPump this st =
     (if carryover st = [] then (\<lparr>pumpDidWork = False, state = st\<rparr>, this)
      else (\<lparr>pumpDidWork = True, state = \<lparr>carryover = []\<rparr>\<rparr>,
            this\<lparr>outputQueue := outputQueue this @ [carryover st]\<rparr>)) \<and>
   statefulPump (snd (statefulPump this st)) (state (fst (statefulPump this st))) =
     (\<lparr>pumpDidWork = False, state = state (fst (statefulPump this st))\<rparr>,
      snd (statefulPump this st))"
  by (simp add: statefulPump_def)

theorem upstream_done_branch_witness:
  "upstream \<lparr>upstream = [], separator = '','', outputQueue = [''x'']\<rparr> = [] \<and>
   statefulPump \<lparr>upstream = [], separator = '','', outputQueue = [''x'']\<rparr>
       \<lparr>carryover = ''ab''\<rparr> =
     (\<lparr>pumpDidWork = True, state = \<lparr>carryover = []\<rparr>\<rparr>,
      \<lparr>upstream = [], separator = '','', outputQueue = [''x'', ''ab'']\<rparr>) \<and>
   statefulPump \<lparr>upstream = [], separator = '','', outputQueue = [''x'', ''ab'']\<rparr>
       \<lparr>carryover = []\<rparr> =
     (\<lparr>pumpDidWork = False, state = \<lparr>carryover = []\<rparr>\<rparr>,
      \<lparr>upstream = [], separator = '','', outputQueue = [''x'', ''ab'']\<rparr>)"
  using upstream_done_branch
    [of "\<lparr>upstream = [], separator = '','', outputQueue = [''x'']\<rparr>" "\<lparr>carryover = ''ab''\<rparr>"]
  by auto

text \<open>
  C5 (totality and degenerate inputs), as amended.  The pump returns on every input
  and reports work done exactly when it got a fragment or had a carryover to flush.
  With the empty delimiter an upstream of one non-empty fragment is emitted one code
  unit a token (across a fragment boundary the last code unit of a fragment is joined
  to the first of the next).  For every non-empty delimiter empty fragments
  contribute nothing: the pump of one enqueues nothing and leaves the carryover, and
  the tokens are those of the upstream without its empty fragments.
\<close>

theorem degenerate_inputs:
  "pumpDidWork (fst (statefulPump this st)) = (upstream this \<noteq> [] \<or> carryover st \<noteq> []) \<and>
   (f \<noteq> [] \<longrightarrow> tokens [] [f] = map (\<lambda>c. [c]) f) \<and>
   (sep \<noteq> [] \<longrightarrow> tokens sep (filter (\<lambda>f. f \<noteq> []) frags) = tokens sep frags) \<and>
   (separator this \<noteq> [] \<and> upstream this = [] # rest \<longrightarrow>
      statefulPump this st = (\<lparr>pumpDidWork = True, state = st\<rparr>, this\<lparr>upstream := rest\<rparr>))"
proof (intro conjI impI)
  show "pumpDidWork (fst (statefulPump this st)) = (upstream this \<noteq> [] \<or> carryover st \<noteq> [])"
    by (cases "upstream this") (simp_all add: statefulPump_def Let_def)
next
  assume "f \<noteq> []"
  then show "tokens [] [f] = map (\<lambda>c. [c]) f" by (rule tokens_chars)
next
  assume "sep \<noteq> []"
  then show "tokens sep (filter (\<lambda>f. f \<noteq> []) frags) = tokens sep frags"
    by (simp add: tokens_emitted emitted_filter)
next
  assume "separator this \<noteq> [] \<and> upstream this = [] # rest"
  then show "statefulPump this st = (\<lparr>pumpDidWork = True, state = st\<rparr>, this\<lparr>upstream := rest\<rparr>)"
    by (simp add: statefulPump_chunk [of this "[]" rest] pumpLines_def split_def)
qed

theorem degenerate_inputs_counterexample:
  "tokens '''' [''a'', ''b''] \<noteq> [''a'', ''b'']"
  by (simp add: tokens_emitted emitted_def pumpLines_def split_def)

theorem degenerate_inputs_witness:
  "''abc'' \<noteq> [] \<and> tokens [] [''abc''] = [''a'', ''b'', ''c''] \<and>
   '','' \<noteq> [] \<and> tokens '','' [''a'', ''b,c''] = tokens '','' ['''', ''a'', '''', ''b,c'', ''''] \<and>
   upstream \<lparr>upstream = ['''', ''b''], separator = '','', outputQueue = [''q'']\<rparr> = ['''', ''b''] \<and>
   statefulPump \<lparr>upstream = ['''', ''b''], separator = '','', outputQueue = [''q'']\<rparr>
       \<lparr>carryover = ''a''\<rparr> =
     (\<lparr>pumpDidWork = True, state = \<lparr>carryover = ''a''\<rparr>\<rparr>,
      \<lparr>upstream = [''b''], separator = '','', outputQueue = [''q'']\<rparr>)"
  using degenerate_inputs
    [of "\<lparr>upstream = ['''', ''b''], separator = '','', outputQueue = [''q'']\<rparr>"
      "\<lparr>carryover = ''a''\<rparr>" "''abc''" "'',''" "['''', ''a'', '''', ''b,c'', '''']" "[''b'']"]
  by simp

text \<open>
  C6 (idempotent termination).  A pull that reports done leaves the transformer with
  the upstream done, the carryover empty and the queue empty, and every later pull
  reports done again and changes nothing.  With the upstream done and the carryover
  empty the pump reports no work done and returns the object and the state as they
  were, so any number of further pumps does the same.
\<close>

theorem idempotent_termination:
  "(statefulNext this st = ((None, st'), this') \<longrightarrow>
      upstream this' = [] \<and> carryover st' = [] \<and> outputQueue this' = [] \<and>
      (nextAgain ^^ n) ((None, st'), this') = ((None, st'), this')) \<and>
   (upstream this = [] \<and> carryover st = [] \<longrightarrow>
      statefulPump this st = (\<lparr>pumpDidWork = False, state = st\<rparr>, this) \<and>
      pumpN n (this, st) = (this, st))"
proof (intro conjI impI)
  assume a: "statefulNext this st = ((None, st'), this')"
  from statefulNext_None [OF a]
  show "upstream this' = []" "carryover st' = []" "outputQueue this' = []"
    by simp_all
  from statefulNext_done_fixed [OF a]
  have "nextAgain ((None, st'), this') = ((None, st'), this')"
    by (simp add: nextAgain_def)
  then show "(nextAgain ^^ n) ((None, st'), this') = ((None, st'), this')"
    by (rule funpow_fixed)
next
  assume a: "upstream this = [] \<and> carryover st = []"
  then show "statefulPump this st = (\<lparr>pumpDidWork = False, state = st\<rparr>, this)"
    by (simp add: statefulPump_done_empty)
  from a show "pumpN n (this, st) = (this, st)"
    by (simp add: pumpN_idle)
qed

theorem idempotent_termination_witness:
  "statefulNext \<lparr>upstream = [], separator = '','', outputQueue = []\<rparr> \<lparr>carryover = []\<rparr> =
     ((None, \<lparr>carryover = []\<rparr>), \<lparr>upstream = [], separator = '','', outputQueue = []\<rparr>) \<and>
   (nextAgain ^^ 3)
       ((None, \<lparr>carryover = []\<rparr>), \<lparr>upstream = [], separator = '','', outputQueue = []\<rparr>) =
     ((None, \<lparr>carryover = []\<rparr>), \<lparr>upstream = [], separator = '','', outputQueue = []\<rparr>) \<and>
   upstream \<lparr>upstream = [], separator = '','', outputQueue = []\<rparr> = [] \<and>
   carryover \<lparr>carryover = []\<rparr> = [] \<and>
   pumpN 3 (\<lparr>upstream = [], separator = '','', outputQueue = []\<rparr>, \<lparr>carryover = []\<rparr>) =
     (\<lparr>upstream = [], separator = '','', outputQueue = []\<rparr>, \<lparr>carryover = []\<rparr>)"
proof -
  have h: "statefulNext \<lparr>upstream = [], separator = '','', outputQueue = []\<rparr> \<lparr>carryover = []\<rparr> =
     ((None, \<lparr>carryover = []\<rparr>), \<lparr>upstream = [], separator = '','', outputQueue = []\<rparr>)"
    by (simp add: statefulNext_done)
  show ?thesis
    using h idempotent_termination
      [of "\<lparr>upstream = [], separator = '','', outputQueue = []\<rparr>" "\<lparr>carryover = []\<rparr>"
        "\<lparr>carryover = []\<rparr>" "\<lparr>upstream = [], separator = '','', outputQueue = []\<rparr>" 3]
    by auto
qed

text \<open>
  C7 (scenario D).  Over the fragments \<open>a\<close>, the empty string and \<open>b,c\<close> with the
  delimiter \<open>,\<close> the transformer emits \<open>ab\<close> and \<open>c\<close>; the pump of the empty
  fragment enqueues nothing and leaves the carryover \<open>a\<close> as it is.
\<close>

theorem scenario_D:
  "tokens '','' [''a'', '''', ''b,c''] = [''ab'', ''c''] \<and>
   statefulPump \<lparr>upstream = ['''', ''b,c''], separator = '','', outputQueue = []\<rparr>
       \<lparr>carryover = ''a''\<rparr> =
     (\<lparr>pumpDidWork = True, state = \<lparr>carryover = ''a''\<rparr>\<rparr>,
      \<lparr>upstream = [''b,c''], separator = '','', outputQueue = []\<rparr>)"
  by (simp add: tokens_emitted emitted_def pumpLines_def split_def statefulPump_def)

text \<open>
  C8 (carryover purity), as amended.  For every delimiter of exactly one character,
  the carryover holds no occurrence of the delimiter in the initial state and after
  every pump, no token that a pump enqueues holds one, and so no emitted token does.
  A longer delimiter can straddle a fragment boundary and then lies inside the
  carryover.
\<close>

theorem carryover_purity_single_char:
  "occurrences [d] (carryover initialState) = 0 \<and>
   (separator this = [d] \<and> occurrences [d] (carryover st) = 0 \<longrightarrow>
      occurrences [d] (carryover (state (fst (statefulPump this st)))) = 0) \<and>
   (separator this = [d] \<and> occurrences [d] (carryover st) = 0 \<and>
    (\<forall>t \<in> set (outputQueue this). occurrences [d] t = 0) \<longrightarrow>
      (\<forall>t \<in> set (outputQueue (snd (statefulPump this st))). occurrences [d] t = 0)) \<and>
   (\<forall>t \<in> set (tokens [d] frags). occurrences [d] t = 0)"
  using pump_carryover_single [of this d st] pump_queue_single [of this d st]
    tokens_single_parts [of _ d frags]
  by (simp add: occurrences_single initialState_def)

theorem carryover_purity_counterexample:
  "statefulPump \<lparr>upstream = [''xa'', ''by''], separator = ''ab'', outputQueue = []\<rparr>
       initialState =
     (\<lparr>pumpDidWork = True, state = \<lparr>carryover = ''xa''\<rparr>\<rparr>,
      \<lparr>upstream = [''by''], separator = ''ab'', outputQueue = []\<rparr>) \<and>
   statefulPump \<lparr>upstream = [''by''], separator = ''ab'', outputQueue = []\<rparr>
       \<lparr>carryover = ''xa''\<rparr> =
     (\<lparr>pumpDidWork = True, state = \<lparr>carryover = ''xaby''\<rparr>\<rparr>,
      \<lparr>upstream = [], separator = ''ab'', outputQueue = []\<rparr>) \<and>
   occurrences ''ab'' ''xaby'' = 1 \<and>
   tokens ''ab'' [''xa'', ''by''] = [''xaby'']"
  by (simp add: statefulPump_def initialState_def split_def tokens_emitted emitted_def
      pumpLines_def)

theorem carryover_purity_single_char_witness:
  "separator \<lparr>upstream = [''b,c''], separator = '','', outputQueue = [''q'']\<rparr> = '','' \<and>
   occurrences '','' (carryover \<lparr>carryover = ''a''\<rparr>) = 0 \<and>
   list_all (\<lambda>t. occurrences '','' t = 0)
     (outputQueue \<lparr>upstream = [''b,c''], separator = '','', outputQueue = [''q'']\<rparr>) \<and>
   occurrences '','' (carryover (state (fst (statefulPump
       \<lparr>upstream = [''b,c''], separator = '','', outputQueue = [''q'']\<rparr>
       \<lparr>carryover = ''a''\<rparr>)))) = 0 \<and>
   list_all (\<lambda>t. occurrences '','' t = 0)
     (outputQueue (snd (statefulPump
       \<lparr>upstream = [''b,c''], separator = '','', outputQueue = [''q'']\<rparr>
       \<lparr>carryover = ''a''\<rparr>))) \<and>
   list_all (\<lambda>t. occurrences '','' t = 0) (tokens '','' [''a,b'', '',c''])"
  using carryover_purity_single_char
    [of "CHR '',''" "\<lparr>upstream = [''b,c''], separator = '','', outputQueue = [''q'']\<rparr>"
      "\<lparr>carryover = ''a''\<rparr>" "[''a,b'', '',c'']"]
  by (simp add: list_all_iff)

text \<open>
  C9 (tokens per pump).  For every non-empty delimiter the pump of a fragment
  enqueues, behind what the queue held, as many tokens as the delimiter occurs in the
  fragment (counted from the left without overlap; for a delimiter of one character,
  as often as the character occurs), and the pump at the end of the upstream
  enqueues one token if the carryover is not empty and none otherwise.
\<close>

theorem pump_token_count:
  "(upstream this = f # rest \<and> separator this \<noteq> [] \<longrightarrow>
      length (outputQueue (snd (statefulPump this st))) =
        length (outputQueue this) + occurrences (separator this) f) \<and>
   (upstream this = f # rest \<and> separator this = [d] \<longrightarrow>
      length (outputQueue (snd (statefulPump this st))) =
        length (outputQueue this) + count_list f d) \<and>
   (upstream this = [] \<longrightarrow>
      length (outputQueue (snd (statefulPump this st))) =
        length (outputQueue this) + (if carryover st = [] then 0 else 1)) \<and>
   prefix (outputQueue this) (outputQueue (snd (statefulPump this st)))"
proof (intro conjI impI)
  assume a: "upstream this = f # rest \<and> separator this \<noteq> []"
  then show "length (outputQueue (snd (statefulPump this st))) =
        length (outputQueue this) + occurrences (separator this) f"
    by (simp add: statefulPump_chunk [of this f rest] length_pumpLines)
next
  assume a: "upstream this = f # rest \<and> separator this = [d]"
  then show "length (outputQueue (snd (statefulPump this st))) =
        length (outputQueue this) + count_list f d"
    by (simp add: statefulPump_chunk [of this f rest] length_pumpLines occurrences_count_list)
next
  assume "upstream this = []"
  then show "length (outputQueue (snd (statefulPump this st))) =
        length (outputQueue this) + (if carryover st = [] then 0 else 1)"
    by (simp add: statefulPump_def)
next
  show "prefix (outputQueue this) (outputQueue (snd (statefulPump this st)))"
    by (cases "upstream this") (simp_all add: statefulPump_def Let_def)
qed

theorem pump_token_count_witness:
  "upstream \<lparr>upstream = [''a,b,,c''], separator = '','', outputQueue = [''q'']\<rparr> = [''a,b,,c''] \<and>
   separator \<lparr>upstream = [''a,b,,c''], separator = '','', outputQueue = [''q'']\<rparr> = '','' \<and>
   occurrences '','' ''a,b,,c'' = 3 \<and> count_list ''a,b,,c'' (CHR '','') = 3 \<and>
   length (outputQueue (snd (statefulPump
       \<lparr>upstream = [''a,b,,c''], separator = '','', outputQueue = [''q'']\<rparr>
       \<lparr>carryover = ''x''\<rparr>))) = 1 + 3 \<and>
   upstream \<lparr>upstream = [], separator = '','', outputQueue = [''q'']\<rparr> = [] \<and>
   length (outputQueue (snd (statefulPump
       \<lparr>upstream = [], separator = '','', outputQueue = [''q'']\<rparr>
       \<lparr>carryover = ''x''\<rparr>))) = 1 + 1"
  using pump_token_count
    [of "\<lparr>upstream = [''a,b,,c''], separator = '','', outputQueue = [''q'']\<rparr>" "''a,b,,c''" "[]"
      "\<lparr>carryover = ''x''\<rparr>" "CHR '',''"]
    pump_token_count
    [of "\<lparr>upstream = [], separator = '','', outputQueue = [''q'']\<rparr>" "[]" "[]"
      "\<lparr>carryover = ''x''\<rparr>" "CHR '',''"]
  by simp

text \<open>
  C10 (determinism).  The pump relates an object and a state to exactly one result and
  one object after it, the ones \<^verbatim>\<open>statefulPump\<close> computes; so two runs of the same
  number of pumps from the same object and state (the same upstream fragments,
  delimiter, queue and carryover) agree pump by pump in the done signal, in the
  carryover and in the queue, and a run of every length exists.
\<close>

theorem pump_runs_deterministic:
  "(pumps this st r this' \<longleftrightarrow> statefulPump this st = (r, this')) \<and>
   (pumps this st r1 t1 \<and> pumps this st r2 t2 \<longrightarrow> r1 = r2 \<and> t1 = t2) \<and>
   (runs this st tr1 \<and> runs this st tr2 \<and> length tr1 = length tr2 \<longrightarrow> tr1 = tr2) \<and>
   (\<exists>tr. runs this st tr \<and> length tr = n)"
proof (intro conjI impI)
  show "pumps this st r this' \<longleftrightarrow> statefulPump this st = (r, this')"
    by (rule pumps_statefulPump)
next
  assume a: "pumps this st r1 t1 \<and> pumps this st r2 t2"
  then show "r1 = r2" "t1 = t2"
    using pumps_deterministic [of this st r1 t1 r2 t2] by simp_all
next
  assume "runs this st tr1 \<and> runs this st tr2 \<and> length tr1 = length tr2"
  then show "tr1 = tr2"
    using runs_deterministic [of this st tr1 tr2] by simp
next
  show "\<exists>tr. runs this st tr \<and> length tr = n"
    by (rule runs_total)
qed

theorem pump_runs_deterministic_witness:
  "pumps \<lparr>upstream = [''a,b''], separator = '','', outputQueue = []\<rparr> initialState
     \<lparr>pumpDidWork = True, state = \<lparr>carryover = ''b''\<rparr>\<rparr>
     \<lparr>upstream = [], separator = '','', outputQueue = [''a'']\<rparr> \<and>
   runs \<lparr>upstream = [''a,b''], separator = '','', outputQueue = []\<rparr> initialState
     [(\<lparr>pumpDidWork = True, state = \<lparr>carryover = ''b''\<rparr>\<rparr>,
       \<lparr>upstream = [], separator = '','', outputQueue = [''a'']\<rparr>)]"
proof -
  have p: "pumps \<lparr>upstream = [''a,b''], separator = '','', outputQueue = []\<rparr> initialState
     \<lparr>pumpDidWork = True, state = \<lparr>carryover = ''b''\<rparr>\<rparr>
     \<lparr>upstream = [], separator = '','', outputQueue = [''a'']\<rparr>"
    using pump_runs_deterministic
      [of "\<lparr>upstream = [''a,b''], separator = '','', outputQueue = []\<rparr>" initialState
        "\<lparr>pumpDidWork = True, state = \<lparr>carryover = ''b''\<rparr>\<rparr>"
        "\<lparr>upstream = [], separator = '','', outputQueue = [''a'']\<rparr>"]
    by (simp add: statefulPump_def initialState_def split_def)
  from p runs_Cons [OF p runs_Nil] show ?thesis by simp
qed

end
